theory Spec2Isabelle
  imports Main "HOL-Library.Word" "HOL-Library.Sublist"
begin

section \<open>The in-memory user repository and its service layer\<close>

subsection \<open>Data model\<close>

text \<open>
  Go's \<^verbatim>\<open>int\<close> identifiers are modelled as HOL integers. The counter \<^verbatim>\<open>nextID\<close> is only
  ever incremented by one per stored record, and every record stays in the map, so the
  counter cannot reach the end of the machine range (31 or 63 bits) before the map has
  outgrown the address space. A \<^verbatim>\<open>time.Time\<close> is an instant, an integer whose value 0
  stands for the zero \<^verbatim>\<open>time.Time{}\<close>.
\<close>

type_synonym Time = int

record User =
  ID :: int
  Name :: string
  Email :: string
  CreatedAt :: Time

text \<open>The zero value \<^verbatim>\<open>User{}\<close>.\<close>

definition User_zero :: User where
  "User_zero = \<lparr>ID = 0, Name = [], Email = [], CreatedAt = 0\<rparr>"

text \<open>
  Error values. \<^verbatim>\<open>ErrUserNotFound\<close> is the package-level sentinel; \<open>errors_New\<close> is a
  value made by \<^verbatim>\<open>errors.New\<close> at the place of use; \<open>Canceled\<close> and \<open>DeadlineExceeded\<close>
  are the two errors of package \<^verbatim>\<open>context\<close>. A Go result \<^verbatim>\<open>(User, error)\<close> is the pair of
  the record and \<open>error option\<close>, with \<open>None\<close> for \<^verbatim>\<open>nil\<close>.
\<close>

datatype error = ErrUserNotFound | errors_New string | Canceled | DeadlineExceeded

type_synonym result = "User \<times> error option"

text \<open>
  The interface \<^verbatim>\<open>UserRepository\<close>: a table of three methods over the state \<open>'s\<close> of
  the implementation behind it. A method takes the state and returns its result together
  with the state it leaves. Two readings of the environment are arguments: the value that
  \<^verbatim>\<open>time.Now()\<close> yields during a \<^verbatim>\<open>Create\<close>, and the order in which the runtime
  enumerates the entries of a map during a \<^verbatim>\<open>List\<close>.
\<close>

record 's UserRepository =
  Create :: "User \<Rightarrow> Time \<Rightarrow> 's \<Rightarrow> result \<times> 's"
  GetByID :: "int \<Rightarrow> 's \<Rightarrow> result \<times> 's"
  List :: "(int \<times> User) list \<Rightarrow> 's \<Rightarrow> User list \<times> 's"

subsection \<open>InMemoryUserRepo\<close>

text \<open>
  The mutex \<^verbatim>\<open>mu\<close> is held from the first to the last statement of each method, so a
  method is one atomic step on the pair of the map and the counter; the model is that
  step.
\<close>

record InMemoryUserRepo =
  users :: "int \<rightharpoonup> User"
  nextID :: int

definition NewInMemoryUserRepo :: InMemoryUserRepo where
  "NewInMemoryUserRepo = \<lparr>users = Map.empty, nextID = 1\<rparr>"

definition InMemoryUserRepo_Create ::
    "User \<Rightarrow> Time \<Rightarrow> InMemoryUserRepo \<Rightarrow> result \<times> InMemoryUserRepo" where
  "InMemoryUserRepo_Create user now r =
     (let user = user\<lparr>ID := nextID r\<rparr>;
          user = user\<lparr>CreatedAt := now\<rparr>;
          r = r\<lparr>users := (users r)(ID user \<mapsto> user)\<rparr>;
          r = r\<lparr>nextID := nextID r + 1\<rparr>
      in ((user, None), r))"

definition InMemoryUserRepo_GetByID ::
    "int \<Rightarrow> InMemoryUserRepo \<Rightarrow> result \<times> InMemoryUserRepo" where
  "InMemoryUserRepo_GetByID id' r =
     (case users r id' of
        None \<Rightarrow> ((User_zero, Some ErrUserNotFound), r)
      | Some user \<Rightarrow> ((user, None), r))"

text \<open>
  \<^verbatim>\<open>for _, u := range r.users\<close> visits every entry of the map once, in an order the
  runtime picks. \<open>range_of m kvs\<close> says that \<open>kvs\<close> is such an enumeration of \<open>m\<close>; the
  loop appends the value of each entry in turn.
\<close>

definition range_of :: "(int \<rightharpoonup> User) \<Rightarrow> (int \<times> User) list \<Rightarrow> bool" where
  "range_of m kvs \<longleftrightarrow> distinct (map fst kvs) \<and> map_of kvs = m"

fun List_loop :: "User list \<Rightarrow> (int \<times> User) list \<Rightarrow> User list" where
  "List_loop result [] = result"
| "List_loop result ((_, u) # kvs) = List_loop (result @ [u]) kvs"

definition InMemoryUserRepo_List ::
    "(int \<times> User) list \<Rightarrow> InMemoryUserRepo \<Rightarrow> User list \<times> InMemoryUserRepo" where
  "InMemoryUserRepo_List kvs r = (List_loop [] kvs, r)"

text \<open>\<^verbatim>\<open>*InMemoryUserRepo\<close> as an implementation of the interface.\<close>

definition InMemory :: "InMemoryUserRepo UserRepository" where
  "InMemory = \<lparr>Create = InMemoryUserRepo_Create,
               GetByID = InMemoryUserRepo_GetByID,
               List = InMemoryUserRepo_List\<rparr>"

subsection \<open>UserService\<close>

record 's UserService =
  repo :: "'s UserRepository"

definition NewUserService :: "'s UserRepository \<Rightarrow> 's UserService" where
  "NewUserService rp = \<lparr>repo = rp\<rparr>"

definition RegisterUser ::
    "'s UserService \<Rightarrow> string \<Rightarrow> string \<Rightarrow> Time \<Rightarrow> 's \<Rightarrow> result \<times> 's" where
  "RegisterUser s name email now \<sigma> =
     (if name = [] \<or> email = []
      then ((User_zero, Some (errors_New ''name or email cannot be empty'')), \<sigma>)
      else let user = \<lparr>ID = 0, Name = name, Email = email, CreatedAt = 0\<rparr>
           in Create (repo s) user now \<sigma>)"

text \<open>
  A \<^verbatim>\<open>context.Context\<close> as \<^verbatim>\<open>GetUser\<close> sees it: whether the channel \<^verbatim>\<open>Done()\<close> is closed
  and what \<^verbatim>\<open>Err()\<close> returns. The \<^verbatim>\<open>select\<close> with a \<^verbatim>\<open>default\<close> takes the first case
  exactly when the channel is closed.
\<close>

record Context =
  Done :: bool
  Err :: "error option"

definition GetUser :: "'s UserService \<Rightarrow> Context \<Rightarrow> int \<Rightarrow> 's \<Rightarrow> result \<times> 's" where
  "GetUser s ctx id' \<sigma> =
     (if Done ctx then ((User_zero, Err ctx), \<sigma>)
      else GetByID (repo s) id' \<sigma>)"

text \<open>
  \<^verbatim>\<open>main\<close> builds the service over the in-memory repository:
  \<^verbatim>\<open>service := NewUserService(repo)\<close>.
\<close>

definition service :: "InMemoryUserRepo UserService" where
  "service = NewUserService InMemory"

subsection \<open>Sequences of calls\<close>

text \<open>
  A call of one of the five operations, with the readings of the environment it gets, and
  the state the repository is left in by one call and by a sequence of calls. The states
  \<open>run cs NewInMemoryUserRepo\<close> are the states a repository can be in.
\<close>

datatype call =
    Call_Create User Time
  | Call_GetByID int
  | Call_List "(int \<times> User) list"
  | Call_RegisterUser string string Time
  | Call_GetUser Context int

fun exec :: "call \<Rightarrow> InMemoryUserRepo \<Rightarrow> InMemoryUserRepo" where
  "exec (Call_Create user now) r = snd (Create InMemory user now r)"
| "exec (Call_GetByID id') r = snd (GetByID InMemory id' r)"
| "exec (Call_List kvs) r = snd (List InMemory kvs r)"
| "exec (Call_RegisterUser name email now) r = snd (RegisterUser service name email now r)"
| "exec (Call_GetUser ctx id') r = snd (GetUser service ctx id' r)"

fun run :: "call list \<Rightarrow> InMemoryUserRepo \<Rightarrow> InMemoryUserRepo" where
  "run [] r = r"
| "run (c # cs) r = run cs (exec c r)"

text \<open>
  One \<^verbatim>\<open>RegisterUser\<close> call after the other, as in the loop of \<^verbatim>\<open>main\<close>, collecting what
  each call returns.
\<close>

fun RegisterUsers ::
    "'s UserService \<Rightarrow> (string \<times> string \<times> Time) list \<Rightarrow> 's \<Rightarrow> result list \<times> 's" where
  "RegisterUsers s [] \<sigma> = ([], \<sigma>)"
| "RegisterUsers s ((name, email, now) # rest) \<sigma> =
     (let (res, \<sigma>) = RegisterUser s name email now \<sigma>;
          (ress, \<sigma>) = RegisterUsers s rest \<sigma>
      in (res # ress, \<sigma>))"

text \<open>
  What every reachable state satisfies: the counter is at least 1, the keys of the map
  are the identifiers below the counter, and a record is stored under its own identifier.
\<close>

definition repo_inv :: "InMemoryUserRepo \<Rightarrow> bool" where
  "repo_inv r \<longleftrightarrow>
     1 \<le> nextID r \<and> dom (users r) = {1..<nextID r} \<and>
     (\<forall>k u. users r k = Some u \<longrightarrow> ID u = k)"

section \<open>Basics: arithmetic on int16\<close>

text \<open>
  \<^verbatim>\<open>var Y int16 = 32767\<close> and \<^verbatim>\<open>fmt.Println(Y+2, Y-2)\<close>. An \<^verbatim>\<open>int16\<close> is a 16-bit word
  read in two's complement. \<^verbatim>\<open>Println\<close> writes its operands in decimal with a space
  between them and a newline at the end.
\<close>

definition Y :: "16 word" where
  "Y = 32767"

fun decimal :: "nat \<Rightarrow> string" where
  "decimal n =
     (if n < 10 then [''0123456789'' ! n]
      else decimal (n div 10) @ [''0123456789'' ! (n mod 10)])"

definition format_int :: "int \<Rightarrow> string" where
  "format_int i = (if i < 0 then CHR ''-'' # decimal (nat (- i)) else decimal (nat i))"

fun Println_int16 :: "16 word list \<Rightarrow> string" where
  "Println_int16 [] = [CHR 0x0A]"
| "Println_int16 [a] = format_int (sint a) @ [CHR 0x0A]"
| "Println_int16 (a # b # rest) = format_int (sint a) @ CHR '' '' # Println_int16 (b # rest)"

definition Basics_line18 :: string where
  "Basics_line18 = Println_int16 [Y + 2, Y - 2]"

section \<open>The asynchronous logger\<close>

text \<open>
  \<^verbatim>\<open>main\<close> and the goroutine \<^verbatim>\<open>asyncLogger\<close> share the unbuffered channel
  \<^verbatim>\<open>logChannel\<close> and the wait group \<^verbatim>\<open>wg\<close>. The model is an interleaving of the two
  threads. The state holds where each thread is, the messages \<^verbatim>\<open>main\<close> has still to send,
  whether the channel is closed, the counter of the wait group, and the messages handed
  to \<^verbatim>\<open>log.Println\<close> so far.

  \<^verbatim>\<open>main\<close> is at \<^verbatim>\<open>wg.Add(1)\<close>, at \<^verbatim>\<open>go asyncLogger(logChannel, &wg)\<close>, in the part that
  sends the messages and then closes the channel, at \<^verbatim>\<open>wg.Wait()\<close>, or past it. The
  logger has not been started, is at the receive of \<^verbatim>\<open>for msg := range ch\<close>, is at
  \<^verbatim>\<open>log.Println\<close> with the message it received, is at the deferred \<^verbatim>\<open>wg.Done()\<close>, or has
  returned.
\<close>

datatype thread = Main | Logger

datatype main_pc = M_Add | M_go | M_send | M_Wait | M_finished

datatype logger_pc = L_idle | L_range | L_Println string | L_Done | L_returned

record sys =
  main_at :: main_pc
  unsent :: "string list"
  logger_at :: logger_pc
  closed :: bool
  wg :: int
  logged :: "string list"

text \<open>
  One move of a thread: the state after it, or that the thread cannot move now (it is
  blocked, not started or has finished), or a panic. A send on the unbuffered channel
  and the receive that takes it are one move, by whichever thread is scheduled; a send
  on a closed channel, closing a closed channel and a negative wait group counter panic;
  a receive on the closed channel ends the \<^verbatim>\<open>range\<close> loop.
\<close>

datatype outcome = Next sys | Cannot_move | Panics

fun step :: "thread \<Rightarrow> sys \<Rightarrow> outcome" where
  "step Main s =
     (case main_at s of
        M_Add \<Rightarrow> Next (s\<lparr>wg := wg s + 1, main_at := M_go\<rparr>)
      | M_go \<Rightarrow> Next (s\<lparr>logger_at := L_range, main_at := M_send\<rparr>)
      | M_send \<Rightarrow>
          (case unsent s of
             m # ms \<Rightarrow>
               if closed s then Panics
               else if logger_at s = L_range
               then Next (s\<lparr>unsent := ms, logger_at := L_Println m\<rparr>)
               else Cannot_move
           | [] \<Rightarrow>
               if closed s then Panics
               else Next (s\<lparr>closed := True, main_at := M_Wait\<rparr>))
      | M_Wait \<Rightarrow> if wg s = 0 then Next (s\<lparr>main_at := M_finished\<rparr>) else Cannot_move
      | M_finished \<Rightarrow> Cannot_move)"
| "step Logger s =
     (case logger_at s of
        L_idle \<Rightarrow> Cannot_move
      | L_range \<Rightarrow>
          if closed s then Next (s\<lparr>logger_at := L_Done\<rparr>)
          else (case (main_at s, unsent s) of
                  (M_send, m # ms) \<Rightarrow> Next (s\<lparr>unsent := ms, logger_at := L_Println m\<rparr>)
                | _ \<Rightarrow> Cannot_move)
      | L_Println msg \<Rightarrow> Next (s\<lparr>logged := logged s @ [msg], logger_at := L_range\<rparr>)
      | L_Done \<Rightarrow>
          if wg s - 1 < 0 then Panics
          else Next (s\<lparr>wg := wg s - 1, logger_at := L_returned\<rparr>)
      | L_returned \<Rightarrow> Cannot_move)"

text \<open>
  A schedule is the list of the threads picked one after the other; a thread that
  cannot move when it is picked leaves the state as it is. \<open>None\<close> is a panic.
\<close>

fun interleave :: "thread list \<Rightarrow> sys \<Rightarrow> sys option" where
  "interleave [] s = Some s"
| "interleave (t # ts) s =
     (case step t s of
        Next s' \<Rightarrow> interleave ts s'
      | Cannot_move \<Rightarrow> interleave ts s
      | Panics \<Rightarrow> None)"

text \<open>The state in which \<^verbatim>\<open>main\<close> reaches \<^verbatim>\<open>wg.Add(1)\<close>, with the messages it will send.\<close>

definition start :: "string list \<Rightarrow> sys" where
  "start msgs = \<lparr>main_at = M_Add, unsent = msgs, logger_at = L_idle, closed = False,
                 wg = 0, logged = []\<rparr>"

text \<open>The message the logger has received and not yet printed.\<close>

fun in_hand :: "logger_pc \<Rightarrow> string list" where
  "in_hand (L_Println msg) = [msg]"
| "in_hand _ = []"

text \<open>What holds in every state of every schedule, by the place \<^verbatim>\<open>main\<close> is at.\<close>

definition sys_inv :: "string list \<Rightarrow> sys \<Rightarrow> bool" where
  "sys_inv msgs s \<longleftrightarrow>
     msgs = logged s @ in_hand (logger_at s) @ unsent s \<and>
     (case main_at s of
        M_Add \<Rightarrow> wg s = 0 \<and> logger_at s = L_idle \<and> \<not> closed s
      | M_go \<Rightarrow> wg s = 1 \<and> logger_at s = L_idle \<and> \<not> closed s
      | M_send \<Rightarrow> wg s = 1 \<and> \<not> closed s \<and> logger_at s \<in> {L_range} \<union> range L_Println
      | M_Wait \<Rightarrow> closed s \<and> unsent s = [] \<and> logger_at s \<noteq> L_idle \<and>
                  wg s = (if logger_at s = L_returned then 0 else 1)
      | M_finished \<Rightarrow> closed s \<and> unsent s = [] \<and> logger_at s = L_returned \<and> wg s = 0)"

text \<open>A bound on the number of moves still to come.\<close>

fun logger_rank :: "logger_pc \<Rightarrow> nat" where
  "logger_rank L_idle = 3"
| "logger_rank L_range = 2"
| "logger_rank (L_Println _) = 3"
| "logger_rank L_Done = 1"
| "logger_rank L_returned = 0"

fun main_rank :: "main_pc \<Rightarrow> nat" where
  "main_rank M_Add = 4"
| "main_rank M_go = 3"
| "main_rank M_send = 2"
| "main_rank M_Wait = 1"
| "main_rank M_finished = 0"

definition moves_left :: "sys \<Rightarrow> nat" where
  "moves_left s = main_rank (main_at s) + 2 * length (unsent s) + logger_rank (logger_at s)"

section \<open>Properties of the repository and the service\<close>

subsection \<open>What one call does to the state\<close>

lemma Create_unfold:
  "InMemoryUserRepo_Create user now r =
     ((user\<lparr>ID := nextID r, CreatedAt := now\<rparr>, None),
      r\<lparr>users := (users r)(nextID r \<mapsto> user\<lparr>ID := nextID r, CreatedAt := now\<rparr>),
        nextID := nextID r + 1\<rparr>)"
  by (simp add: InMemoryUserRepo_Create_def Let_def)

lemma GetByID_state: "snd (InMemoryUserRepo_GetByID i r) = r"
  by (simp add: InMemoryUserRepo_GetByID_def split: option.split)

lemma List_loop_eq: "List_loop acc kvs = acc @ map snd kvs"
  by (induction acc kvs rule: List_loop.induct) simp_all

lemma exec_cases:
  "exec c r = r \<or> (\<exists>user now. exec c r = snd (InMemoryUserRepo_Create user now r))"
  by (cases c)
     (auto simp: InMemory_def service_def NewUserService_def RegisterUser_def GetUser_def
        GetByID_state InMemoryUserRepo_List_def Let_def)

lemma run_append: "run (cs @ cs') r = run cs' (run cs r)"
  by (induction cs arbitrary: r) simp_all

subsection \<open>The invariant of reachable states\<close>

lemma repo_inv_New: "repo_inv NewInMemoryUserRepo"
  by (simp add: repo_inv_def NewInMemoryUserRepo_def)

lemma repo_inv_Create: "repo_inv r \<Longrightarrow> repo_inv (snd (InMemoryUserRepo_Create user now r))"
  by (auto simp: repo_inv_def Create_unfold)

lemma repo_inv_exec: "repo_inv r \<Longrightarrow> repo_inv (exec c r)"
  using exec_cases [of c r] by (auto simp: repo_inv_Create)

lemma repo_inv_run: "repo_inv r \<Longrightarrow> repo_inv (run cs r)"
  by (induction cs arbitrary: r) (simp_all add: repo_inv_exec)

lemma repo_inv_reachable: "repo_inv (run cs NewInMemoryUserRepo)"
  by (simp add: repo_inv_run repo_inv_New)

lemma stored_key_below_counter:
  assumes "repo_inv r" and "users r k = Some u"
  shows "ID u = k" and "1 \<le> k" and "k < nextID r"
proof -
  from assms(2) have "k \<in> dom (users r)" by (rule domI)
  with assms(1) have "k \<in> {1..<nextID r}" by (simp add: repo_inv_def)
  then show "1 \<le> k" and "k < nextID r" by simp_all
  from assms show "ID u = k" by (simp add: repo_inv_def)
qed

lemma users_stable_exec:
  assumes "repo_inv r" and "users r k = Some u"
  shows "users (exec c r) k = Some u"
proof -
  from assms have "k < nextID r" by (rule stored_key_below_counter)
  with assms(2) exec_cases [of c r] show ?thesis
    by (auto simp: Create_unfold)
qed

lemma users_stable_run:
  "repo_inv r \<Longrightarrow> users r k = Some u \<Longrightarrow> users (run cs r) k = Some u"
  by (induction cs arbitrary: r) (simp_all add: users_stable_exec repo_inv_exec)

subsection \<open>Identifiers handed out by RegisterUser\<close>

lemma RegisterUsers_valid:
  assumes "\<forall>(name, email, now) \<in> set args. name \<noteq> [] \<and> email \<noteq> []"
  shows "map snd (fst (RegisterUsers service args r)) = replicate (length args) None \<and>
         map ID (map fst (fst (RegisterUsers service args r))) =
           map (\<lambda>k. nextID r + int k) [0..<length args]"
  using assms
proof (induction args arbitrary: r)
  case Nil
  then show ?case by simp
next
  case (Cons a args)
  obtain name email now where a: "a = (name, email, now)" by (cases a)
  let ?u = "\<lparr>ID = nextID r, Name = name, Email = email, CreatedAt = now\<rparr>"
  let ?r = "r\<lparr>users := (users r)(nextID r \<mapsto> ?u), nextID := nextID r + 1\<rparr>"
  from Cons.prems a have "name \<noteq> []" "email \<noteq> []" by auto
  then have step: "RegisterUser service name email now r = ((?u, None), ?r)"
    by (simp add: RegisterUser_def service_def NewUserService_def InMemory_def Create_unfold)
  from Cons.prems have "\<forall>(name, email, now) \<in> set args. name \<noteq> [] \<and> email \<noteq> []"
    by simp
  from Cons.IH [OF this, of ?r] have
    IH1: "map snd (fst (RegisterUsers service args ?r)) = replicate (length args) None" and
    IH2: "map ID (map fst (fst (RegisterUsers service args ?r))) =
            map (\<lambda>k. nextID r + 1 + int k) [0..<length args]"
    by simp_all
  have "map (\<lambda>k. nextID r + int k) [0..<length (a # args)] =
          nextID r # map (\<lambda>k. nextID r + 1 + int k) [0..<length args]"
    by (simp add: upt_conv_Cons map_Suc_upt [symmetric] del: upt_Suc)
  with IH1 IH2 step a show ?case
    by (simp add: case_prod_beta del: upt_Suc)
qed

lemma upto_as_map: "map (\<lambda>k. 1 + int k) [0..<n] = [1..int n]"
  by (induction n) (simp_all add: upto_rec2)

text \<open>
  C1. On a fresh repository, a sequence of \<^verbatim>\<open>RegisterUser\<close> calls whose names and emails
  are all non-empty succeeds at every call and hands out the identifiers 1, 2, 3, ... in
  this order. Started in any state the repository can reach, every call of the sequence
  succeeds, the identifiers it hands out are strictly increasing and pairwise distinct,
  and each is greater than the identifier of every record stored before.
\<close>

theorem RegisterUser_identifiers:
  assumes "\<forall>(name, email, now) \<in> set args. name \<noteq> [] \<and> email \<noteq> []"
  shows "(case RegisterUsers service args NewInMemoryUserRepo of
            (rs, r') \<Rightarrow>
              map snd rs = replicate (length args) None \<and>
              map ID (map fst rs) = [1..int (length args)]) \<and>
         (case RegisterUsers service args (run cs NewInMemoryUserRepo) of
            (rs, r') \<Rightarrow>
              map snd rs = replicate (length args) None \<and>
              sorted_wrt (<) (map ID (map fst rs)) \<and>
              distinct (map ID (map fst rs)) \<and>
              (\<forall>i \<in> set (map ID (map fst rs)).
                 \<forall>u \<in> ran (users (run cs NewInMemoryUserRepo)). ID u < i))"
proof -
  let ?r = "run cs NewInMemoryUserRepo"
  let ?ids = "\<lambda>r. map ID (map fst (fst (RegisterUsers service args r)))"
  have inv: "repo_inv ?r" by (rule repo_inv_reachable)
  have fresh: "?ids NewInMemoryUserRepo = [1..int (length args)]"
    using RegisterUsers_valid [OF assms, of NewInMemoryUserRepo]
    by (simp add: NewInMemoryUserRepo_def upto_as_map)
  have ids: "?ids ?r = map (\<lambda>k. nextID ?r + int k) [0..<length args]"
    using RegisterUsers_valid [OF assms, of ?r] by simp
  have s: "sorted_wrt (<) (?ids ?r)"
    unfolding ids by (simp add: sorted_wrt_map)
  have d: "distinct (?ids ?r)"
    unfolding ids by (simp add: distinct_map inj_on_def)
  have g: "ID u < i" if "i \<in> set (?ids ?r)" and "u \<in> ran (users ?r)" for i u
  proof -
    from that(2) obtain k where k: "users ?r k = Some u" by (auto simp: ran_def)
    with inv have "ID u = k" and "k < nextID ?r"
      by (simp_all add: stored_key_below_counter)
    moreover from that(1) have "nextID ?r \<le> i" unfolding ids by auto
    ultimately show ?thesis by simp
  qed
  from fresh s d g RegisterUsers_valid [OF assms] show ?thesis
    by (simp add: case_prod_beta)
qed

theorem RegisterUser_identifiers_witness:
  "map ID (map fst (fst (RegisterUsers service
       [(''Gaurav'', ''gaurav@example.com'', 100), (''Amit'', ''amit@example.com'', 200)]
       NewInMemoryUserRepo))) = [1, 2] \<and>
   map snd (fst (RegisterUsers service
       [(''Gaurav'', ''gaurav@example.com'', 100), (''Amit'', ''amit@example.com'', 200)]
       NewInMemoryUserRepo)) = [None, None]"
  using RegisterUser_identifiers
    [of "[(''Gaurav'', ''gaurav@example.com'', 100), (''Amit'', ''amit@example.com'', 200)]"
        "[]"]
  by (simp add: upto.simps RegisterUser_def service_def NewUserService_def InMemory_def
        Create_unfold NewInMemoryUserRepo_def)

subsection \<open>Validation in RegisterUser\<close>

text \<open>
  C2. For every service, over any implementation of the repository and in any state of
  it, \<^verbatim>\<open>RegisterUser\<close> with an empty name or an empty email returns the validation error
  and the state it was given, unchanged. With both arguments non-empty it returns what
  \<^verbatim>\<open>Create\<close> of the repository returns, which for the in-memory repository is never an
  error.
\<close>

theorem RegisterUser_validation:
  "(name = [] \<or> email = [] \<longrightarrow>
      RegisterUser s name email now \<sigma> =
        ((User_zero, Some (errors_New ''name or email cannot be empty'')), \<sigma>)) \<and>
   (name \<noteq> [] \<and> email \<noteq> [] \<longrightarrow>
      RegisterUser s name email now \<sigma> =
        Create (repo s) \<lparr>ID = 0, Name = name, Email = email, CreatedAt = 0\<rparr> now \<sigma> \<and>
      snd (fst (RegisterUser service name email now r)) = None)"
  by (simp add: RegisterUser_def service_def NewUserService_def InMemory_def Create_unfold)

theorem RegisterUser_validation_witness:
  "RegisterUser service [] ''x@example.com'' 7 NewInMemoryUserRepo =
     ((User_zero, Some (errors_New ''name or email cannot be empty'')), NewInMemoryUserRepo) \<and>
   RegisterUser service ''x'' [] 7 NewInMemoryUserRepo =
     ((User_zero, Some (errors_New ''name or email cannot be empty'')), NewInMemoryUserRepo) \<and>
   snd (fst (RegisterUser service ''x'' ''x@example.com'' 7 NewInMemoryUserRepo)) = None"
  using RegisterUser_validation
      [where name = "[]" and email = "''x@example.com''" and s = service and now = 7
         and \<sigma> = NewInMemoryUserRepo]
    RegisterUser_validation
      [where name = "''x''" and email = "[]" and s = service and now = 7
         and \<sigma> = NewInMemoryUserRepo]
    RegisterUser_validation
      [where name = "''x''" and email = "''x@example.com''" and s = service and now = 7
         and \<sigma> = NewInMemoryUserRepo and r = NewInMemoryUserRepo]
  by (simp add: service_def NewUserService_def InMemory_def Create_unfold)

subsection \<open>GetByID\<close>

text \<open>
  C3. In every state the repository can reach, \<^verbatim>\<open>GetByID(id)\<close> returns the zero record
  with \<^verbatim>\<open>ErrUserNotFound\<close> exactly when no stored record has the identifier \<open>id\<close>. In
  every state and for every record, \<^verbatim>\<open>GetByID\<close> of the identifier of the record that
  \<^verbatim>\<open>Create\<close> has just returned succeeds and returns that same record.
\<close>

theorem GetByID_NotFound_iff:
  "(fst (GetByID InMemory id' (run cs NewInMemoryUserRepo)) = (User_zero, Some ErrUserNotFound)
      \<longleftrightarrow> \<not> (\<exists>u \<in> ran (users (run cs NewInMemoryUserRepo)). ID u = id')) \<and>
   (snd (fst (GetByID InMemory id' (run cs NewInMemoryUserRepo))) = Some ErrUserNotFound
      \<longleftrightarrow> \<not> (\<exists>u \<in> ran (users (run cs NewInMemoryUserRepo)). ID u = id')) \<and>
   (case Create InMemory user now r of
      ((u, e), r') \<Rightarrow> GetByID InMemory (ID u) r' = ((u, None), r'))"
proof -
  let ?r = "run cs NewInMemoryUserRepo"
  have inv: "repo_inv ?r" by (rule repo_inv_reachable)
  have "users ?r id' = None \<longleftrightarrow> \<not> (\<exists>u \<in> ran (users ?r). ID u = id')"
  proof
    assume "users ?r id' = None"
    with inv show "\<not> (\<exists>u \<in> ran (users ?r). ID u = id')"
      by (auto simp: repo_inv_def ran_def)
  next
    assume "\<not> (\<exists>u \<in> ran (users ?r). ID u = id')"
    with inv show "users ?r id' = None"
      by (cases "users ?r id'") (auto simp: repo_inv_def ran_def)
  qed
  moreover have "fst (GetByID InMemory id' ?r) = (User_zero, Some ErrUserNotFound)
      \<longleftrightarrow> users ?r id' = None"
    by (simp add: InMemory_def InMemoryUserRepo_GetByID_def split: option.split)
  moreover have "snd (fst (GetByID InMemory id' ?r)) = Some ErrUserNotFound
      \<longleftrightarrow> users ?r id' = None"
    by (simp add: InMemory_def InMemoryUserRepo_GetByID_def split: option.split)
  ultimately show ?thesis
    by (simp add: InMemory_def Create_unfold InMemoryUserRepo_GetByID_def)
qed

theorem GetByID_NotFound_iff_witness:
  "fst (GetByID InMemory 2
          (run [Call_RegisterUser ''Gaurav'' ''gaurav@example.com'' 100] NewInMemoryUserRepo))
     = (User_zero, Some ErrUserNotFound) \<and>
   fst (GetByID InMemory 1
          (run [Call_RegisterUser ''Gaurav'' ''gaurav@example.com'' 100] NewInMemoryUserRepo))
     = (\<lparr>ID = 1, Name = ''Gaurav'', Email = ''gaurav@example.com'', CreatedAt = 100\<rparr>, None)"
  using GetByID_NotFound_iff
      [of 2 "[Call_RegisterUser ''Gaurav'' ''gaurav@example.com'' 100]"]
    GetByID_NotFound_iff
      [of 1 "[Call_RegisterUser ''Gaurav'' ''gaurav@example.com'' 100]"]
  by (simp add: RegisterUser_def service_def NewUserService_def InMemory_def Create_unfold
        NewInMemoryUserRepo_def InMemoryUserRepo_GetByID_def)

subsection \<open>List\<close>

lemma run_Creates_nextID:
  "nextID (run (map (\<lambda>(user, now). Call_Create user now) ps) r) = nextID r + int (length ps)"
  by (induction ps arbitrary: r) (auto simp: InMemory_def Create_unfold)

lemma range_of_ids:
  assumes "repo_inv r" and "range_of (users r) kvs"
  shows "map ID (map snd kvs) = map fst kvs"
proof -
  have "ID u = k" if "(k, u) \<in> set kvs" for k u
  proof -
    from that assms(2) have "users r k = Some u"
      by (auto simp: range_of_def dest: map_of_is_SomeI)
    with assms(1) show ?thesis by (simp add: repo_inv_def)
  qed
  then show ?thesis by (induction kvs) auto
qed

lemma range_of_keys:
  assumes "range_of m kvs"
  shows "set (map fst kvs) = dom m" and "distinct (map fst kvs)"
  using assms by (force simp: range_of_def dom_map_of_conv_image_fst)+

lemma range_of_exists:
  assumes "repo_inv r"
  shows "\<exists>kvs. range_of (users r) kvs"
proof -
  let ?ks = "[1..nextID r - 1]"
  let ?kvs = "map (\<lambda>k. (k, the (users r k))) ?ks"
  from assms have dom: "dom (users r) = set ?ks" by (auto simp: repo_inv_def)
  have "map fst ?kvs = ?ks" by (simp add: comp_def)
  then have d: "distinct (map fst ?kvs)" by (simp only: distinct_upto)
  have "map_of ?kvs k = users r k" for k
  proof (cases "k \<in> set ?ks")
    case True
    with dom obtain u where "users r k = Some u" by blast
    with True show ?thesis by (simp add: map_of_map_restrict)
  next
    case False
    with dom have "users r k = None" by blast
    with False show ?thesis by (simp add: map_of_map_restrict)
  qed
  then have "map_of ?kvs = users r" by (rule ext)
  with d have "range_of (users r) ?kvs" by (simp only: range_of_def simp_thms)
  then show ?thesis by (rule exI)
qed

text \<open>
  C4. After \<open>N\<close> calls of \<^verbatim>\<open>Create\<close> on a fresh repository and no other call, \<^verbatim>\<open>List\<close>
  returns, whatever the order in which the map is enumerated, exactly \<open>N\<close> records; their
  identifiers are pairwise distinct, each lies between 1 and \<open>N\<close>, and together they are
  all of 1, ..., \<open>N\<close>. The map of that state has an enumeration, so \<^verbatim>\<open>List\<close> has a result.
\<close>

theorem List_after_Creates:
  assumes "range_of (users (run (map (\<lambda>(user, now). Call_Create user now) ps)
                               NewInMemoryUserRepo)) kvs"
  shows "case List InMemory kvs (run (map (\<lambda>(user, now). Call_Create user now) ps)
                                     NewInMemoryUserRepo) of
           (us, r') \<Rightarrow>
             length us = length ps \<and> distinct (map ID us) \<and>
             (\<forall>u \<in> set us. 1 \<le> ID u \<and> ID u \<le> int (length ps)) \<and>
             set (map ID us) = {1..int (length ps)} \<and>
             (\<exists>kvs'. range_of (users r') kvs')"
proof -
  let ?r = "run (map (\<lambda>(user, now). Call_Create user now) ps) NewInMemoryUserRepo"
  let ?ids = "map fst kvs"
  have inv: "repo_inv ?r" by (rule repo_inv_reachable)
  have nxt: "nextID ?r = 1 + int (length ps)"
    by (simp add: run_Creates_nextID NewInMemoryUserRepo_def)
  have ids: "map ID (map snd kvs) = ?ids"
    using inv assms by (rule range_of_ids)
  have d: "distinct ?ids" using assms by (rule range_of_keys)
  have "set ?ids = dom (users ?r)" using assms by (rule range_of_keys)
  with inv nxt have s: "set ?ids = {1..int (length ps)}"
    by (auto simp: repo_inv_def)
  have "card (set ?ids) = length ?ids" using d by (rule distinct_card)
  with s have l: "length kvs = length ps" by simp
  have res: "List InMemory kvs ?r = (map snd kvs, ?r)"
    by (simp add: InMemory_def InMemoryUserRepo_List_def List_loop_eq)
  have c1: "distinct (map ID (map snd kvs))" using d by (simp only: ids)
  have c2: "set (map ID (map snd kvs)) = {1..int (length ps)}" using s by (simp only: ids)
  have c3: "1 \<le> ID u \<and> ID u \<le> int (length ps)" if "u \<in> set (map snd kvs)" for u
  proof -
    from that have "ID u \<in> set (map ID (map snd kvs))" by (simp only: set_map) (rule imageI)
    then show ?thesis by (simp only: c2 atLeastAtMost_iff)
  qed
  have c4: "\<exists>kvs'. range_of (users ?r) kvs'" using inv by (rule range_of_exists)
  from l c1 c2 c3 c4 show ?thesis
    by (simp only: res split_conv length_map) blast
qed

theorem List_after_Creates_witness:
  "fst (List InMemory
         [(2, \<lparr>ID = 2, Name = ''Amit'', Email = ''amit@example.com'', CreatedAt = 200\<rparr>),
          (1, \<lparr>ID = 1, Name = ''Gaurav'', Email = ''gaurav@example.com'', CreatedAt = 100\<rparr>)]
         (run [Call_Create \<lparr>ID = 0, Name = ''Gaurav'', Email = ''gaurav@example.com'',
                            CreatedAt = 0\<rparr> 100,
               Call_Create \<lparr>ID = 0, Name = ''Amit'', Email = ''amit@example.com'',
                            CreatedAt = 0\<rparr> 200]
            NewInMemoryUserRepo))
     = [\<lparr>ID = 2, Name = ''Amit'', Email = ''amit@example.com'', CreatedAt = 200\<rparr>,
        \<lparr>ID = 1, Name = ''Gaurav'', Email = ''gaurav@example.com'', CreatedAt = 100\<rparr>] \<and>
   range_of
     (users (run [Call_Create \<lparr>ID = 0, Name = ''Gaurav'', Email = ''gaurav@example.com'',
                                CreatedAt = 0\<rparr> 100,
                  Call_Create \<lparr>ID = 0, Name = ''Amit'', Email = ''amit@example.com'',
                                CreatedAt = 0\<rparr> 200]
               NewInMemoryUserRepo))
     [(2, \<lparr>ID = 2, Name = ''Amit'', Email = ''amit@example.com'', CreatedAt = 200\<rparr>),
      (1, \<lparr>ID = 1, Name = ''Gaurav'', Email = ''gaurav@example.com'', CreatedAt = 100\<rparr>)]"
  using List_after_Creates
    [of "[(\<lparr>ID = 0, Name = ''Gaurav'', Email = ''gaurav@example.com'', CreatedAt = 0\<rparr>, 100),
          (\<lparr>ID = 0, Name = ''Amit'', Email = ''amit@example.com'', CreatedAt = 0\<rparr>, 200)]"
        "[(2, \<lparr>ID = 2, Name = ''Amit'', Email = ''amit@example.com'', CreatedAt = 200\<rparr>),
          (1, \<lparr>ID = 1, Name = ''Gaurav'', Email = ''gaurav@example.com'', CreatedAt = 100\<rparr>)]"]
  by (simp add: range_of_def InMemory_def Create_unfold NewInMemoryUserRepo_def
        InMemoryUserRepo_List_def)

subsection \<open>GetUser and the context\<close>

text \<open>
  C5. For every service, over any implementation of the repository and in any state of
  it: when the context is done, \<^verbatim>\<open>GetUser\<close> returns the zero record with the value of
  \<^verbatim>\<open>ctx.Err()\<close> itself and the state it was given, whatever the methods of the repository
  would have done to that state; when the context is not done, \<^verbatim>\<open>GetUser\<close> is \<^verbatim>\<open>GetByID\<close>
  of the repository.
\<close>

theorem GetUser_context:
  "(Done ctx \<longrightarrow> GetUser s ctx id' \<sigma> = ((User_zero, Err ctx), \<sigma>)) \<and>
   (\<not> Done ctx \<longrightarrow> GetUser s ctx id' \<sigma> = GetByID (repo s) id' \<sigma>)"
  by (simp add: GetUser_def)

text \<open>
  The witness runs \<^verbatim>\<open>GetUser\<close> over a repository that counts the calls of its methods in
  its state: with a context past its deadline the count stays 0, with a live context it
  becomes 1.
\<close>

theorem GetUser_context_witness:
  "GetUser (NewUserService
             \<lparr>Create = \<lambda>user now n. ((user, None), Suc n),
              GetByID = \<lambda>i n. ((User_zero, Some ErrUserNotFound), Suc n),
              List = \<lambda>kvs n. ([], Suc n)\<rparr>)
           \<lparr>Done = True, Err = Some DeadlineExceeded\<rparr> 1 0
     = ((User_zero, Some DeadlineExceeded), 0) \<and>
   GetUser (NewUserService
             \<lparr>Create = \<lambda>user now n. ((user, None), Suc n),
              GetByID = \<lambda>i n. ((User_zero, Some ErrUserNotFound), Suc n),
              List = \<lambda>kvs n. ([], Suc n)\<rparr>)
           \<lparr>Done = False, Err = None\<rparr> 1 0
     = ((User_zero, Some ErrUserNotFound), 1)"
  using GetUser_context
      [where ctx = "\<lparr>Done = True, Err = Some DeadlineExceeded\<rparr>" and id' = 1 and \<sigma> = "0::nat"
         and s = "NewUserService
             \<lparr>Create = \<lambda>user now n. ((user, None), Suc n),
              GetByID = \<lambda>i n. ((User_zero, Some ErrUserNotFound), Suc n),
              List = \<lambda>kvs n. ([], Suc n)\<rparr>"]
    GetUser_context
      [where ctx = "\<lparr>Done = False, Err = None\<rparr>" and id' = 1 and \<sigma> = "0::nat"
         and s = "NewUserService
             \<lparr>Create = \<lambda>user now n. ((user, None), Suc n),
              GetByID = \<lambda>i n. ((User_zero, Some ErrUserNotFound), Suc n),
              List = \<lambda>kvs n. ([], Suc n)\<rparr>"]
  by (simp add: NewUserService_def)

subsection \<open>Create\<close>

text \<open>
  C6. \<^verbatim>\<open>Create\<close> of the in-memory repository returns a \<^verbatim>\<open>nil\<close> error for every record,
  every clock reading and every state.
\<close>

theorem Create_always_succeeds:
  "snd (fst (Create InMemory user now r)) = None"
  by (simp add: InMemory_def Create_unfold)

text \<open>
  C9. The \<^verbatim>\<open>ID\<close> and \<^verbatim>\<open>CreatedAt\<close> of the record passed to \<^verbatim>\<open>Create\<close> have no effect: the
  record returned, which is also the record stored under the old value of the counter,
  carries that value as its \<^verbatim>\<open>ID\<close>, the clock reading as its \<^verbatim>\<open>CreatedAt\<close>, and the name
  and email of the argument.
\<close>

theorem Create_overwrites_ID_CreatedAt:
  "Create InMemory (user\<lparr>ID := i, CreatedAt := t\<rparr>) now r = Create InMemory user now r \<and>
   (case Create InMemory user now r of
      ((u, e), r') \<Rightarrow>
        u = \<lparr>ID = nextID r, Name = Name user, Email = Email user, CreatedAt = now\<rparr> \<and>
        users r' (nextID r) = Some u)"
  by (simp add: InMemory_def Create_unfold)

subsection \<open>Stored records do not change\<close>

text \<open>
  C7. A record stored under the key \<open>k\<close> after some sequence of calls on a fresh
  repository is stored under \<open>k\<close>, unchanged in every field, after any further sequence of
  calls of \<^verbatim>\<open>Create\<close>, \<^verbatim>\<open>GetByID\<close>, \<^verbatim>\<open>List\<close>, \<^verbatim>\<open>RegisterUser\<close> and \<^verbatim>\<open>GetUser\<close>; and \<open>k\<close> is
  its identifier.
\<close>

theorem stored_record_never_changes:
  assumes "users (run cs NewInMemoryUserRepo) k = Some u"
  shows "users (run (cs @ cs') NewInMemoryUserRepo) k = Some u \<and> ID u = k"
proof -
  have inv: "repo_inv (run cs NewInMemoryUserRepo)" by (rule repo_inv_reachable)
  with assms have "ID u = k" by (simp add: repo_inv_def)
  with inv assms show ?thesis by (simp add: run_append users_stable_run)
qed

theorem stored_record_never_changes_witness:
  "users (run ([Call_RegisterUser ''Gaurav'' ''gaurav@example.com'' 100] @
               [Call_Create \<lparr>ID = 1, Name = ''Amit'', Email = ''amit@example.com'',
                             CreatedAt = 5\<rparr> 200,
                Call_GetUser \<lparr>Done = False, Err = None\<rparr> 1,
                Call_RegisterUser [] ''nobody@example.com'' 300,
                Call_List [],
                Call_GetByID 1])
          NewInMemoryUserRepo) 1
     = Some \<lparr>ID = 1, Name = ''Gaurav'', Email = ''gaurav@example.com'', CreatedAt = 100\<rparr>"
proof -
  have "users (run [Call_RegisterUser ''Gaurav'' ''gaurav@example.com'' 100]
                 NewInMemoryUserRepo) 1
          = Some \<lparr>ID = 1, Name = ''Gaurav'', Email = ''gaurav@example.com'', CreatedAt = 100\<rparr>"
    by (simp add: RegisterUser_def service_def NewUserService_def InMemory_def Create_unfold
          NewInMemoryUserRepo_def)
  then show ?thesis
    by (rule stored_record_never_changes [THEN conjunct1])
qed

section \<open>Properties of Basics\<close>

text \<open>
  C10. With \<^verbatim>\<open>Y\<close> an \<^verbatim>\<open>int16\<close> equal to 32767, \<^verbatim>\<open>Y+2\<close> is the sum modulo \<open>2 ^ 16\<close> and
  reads -32767 in two's complement, \<^verbatim>\<open>Y-2\<close> is 32765, and the line printed is
  \<^verbatim>\<open>-32767 32765\<close>; the value is not the 32769 that unbounded integers give.
\<close>

theorem Basics_int16_wraps:
  "sint (Y + 2) = - 32767 \<and> sint (Y - 2) = 32765 \<and>
   uint (Y + 2) = (uint Y + 2) mod 2 ^ 16 \<and>
   Basics_line18 = ''-32767 32765'' @ [CHR 0x0A] \<and>
   sint Y + 2 = 32769 \<and> sint (Y + 2) \<noteq> 32769"
  by (simp add: Y_def Basics_line18_def format_int_def)

section \<open>Properties of the asynchronous logger\<close>

lemma step_inv:
  assumes "sys_inv msgs s"
  shows "step t s \<noteq> Panics" and "step t s = Next s' \<Longrightarrow> sys_inv msgs s'"
  using assms
  by (cases t; cases "main_at s"; cases "logger_at s"; cases "unsent s";
      auto simp: sys_inv_def split: if_splits)+

lemma step_moves_left:
  "sys_inv msgs s \<Longrightarrow> step t s = Next s' \<Longrightarrow> moves_left s' < moves_left s"
  by (cases t; cases "main_at s"; cases "logger_at s"; cases "unsent s";
      auto simp: moves_left_def sys_inv_def split: if_splits)

lemma no_deadlock:
  assumes "sys_inv msgs s" and "main_at s \<noteq> M_finished"
  shows "\<exists>t s'. step t s = Next s'"
proof (cases "\<exists>s'. step Main s = Next s'")
  case True
  then show ?thesis by blast
next
  case False
  with assms have "\<exists>s'. step Logger s = Next s'"
    by (cases "main_at s"; cases "logger_at s"; cases "unsent s";
        auto simp: sys_inv_def split: if_splits)
  then show ?thesis by blast
qed

lemma interleave_append:
  "interleave (ts @ ts') s = (case interleave ts s of None \<Rightarrow> None | Some s' \<Rightarrow> interleave ts' s')"
  by (induction ts arbitrary: s) (simp_all split: outcome.split)

lemma interleave_inv:
  "sys_inv msgs s \<Longrightarrow> \<exists>s'. interleave ts s = Some s' \<and> sys_inv msgs s'"
proof (induction ts arbitrary: s)
  case Nil
  then show ?case by simp
next
  case (Cons t ts)
  show ?case
  proof (cases "step t s")
    case (Next s')
    with Cons.prems have "sys_inv msgs s'" by (simp add: step_inv)
    from Cons.IH [OF this] Next show ?thesis by simp
  next
    case Cannot_move
    with Cons.IH [OF Cons.prems] show ?thesis by simp
  next
    case Panics
    with Cons.prems show ?thesis by (simp add: step_inv)
  qed
qed

lemma sys_inv_start: "sys_inv msgs (start msgs)"
  by (simp add: sys_inv_def start_def)

lemma can_finish:
  "sys_inv msgs s \<Longrightarrow> \<exists>ts s'. interleave ts s = Some s' \<and> main_at s' = M_finished"
proof (induction "moves_left s" arbitrary: s rule: less_induct)
  case less
  show ?case
  proof (cases "main_at s = M_finished")
    case True
    then have "interleave [] s = Some s \<and> main_at s = M_finished" by simp
    then show ?thesis by blast
  next
    case False
    with less.prems obtain t s1 where st: "step t s = Next s1"
      using no_deadlock by blast
    with less.prems have "moves_left s1 < moves_left s" and "sys_inv msgs s1"
      by (simp_all add: step_moves_left step_inv)
    then obtain ts s' where "interleave ts s1 = Some s'" and "main_at s' = M_finished"
      using less.hyps by blast
    with st have "interleave (t # ts) s = Some s' \<and> main_at s' = M_finished" by simp
    then show ?thesis by blast
  qed
qed

text \<open>
  C8. Under every schedule of \<^verbatim>\<open>main\<close> and the logger, for every list of messages that
  \<^verbatim>\<open>main\<close> sends: nothing panics; the messages printed, then the one the logger holds,
  then the ones not yet sent are the messages in the order of sending, so what has been
  printed is always an initial part of them in that order; when \<^verbatim>\<open>wg.Wait()\<close> has
  returned, every message has been printed; and every schedule can be continued to a
  state where \<^verbatim>\<open>wg.Wait()\<close> has returned.
\<close>

theorem logger_FIFO:
  "(\<exists>s. interleave ts (start msgs) = Some s \<and>
        logged s @ in_hand (logger_at s) @ unsent s = msgs \<and>
        prefix (logged s) msgs \<and>
        (main_at s = M_finished \<longrightarrow> logged s = msgs)) \<and>
   (\<exists>ts' s'. interleave (ts @ ts') (start msgs) = Some s' \<and> main_at s' = M_finished)"
proof -
  obtain s where s: "interleave ts (start msgs) = Some s" and inv: "sys_inv msgs s"
    using interleave_inv [OF sys_inv_start] by blast
  from inv have 1: "logged s @ in_hand (logger_at s) @ unsent s = msgs"
    by (simp add: sys_inv_def)
  then have 2: "prefix (logged s) msgs" by (metis prefixI)
  from inv have 3: "main_at s = M_finished \<longrightarrow> logged s = msgs"
    by (auto simp: sys_inv_def)
  from can_finish [OF inv] obtain ts' s' where
    "interleave ts' s = Some s'" and "main_at s' = M_finished" by blast
  with s have "interleave (ts @ ts') (start msgs) = Some s' \<and> main_at s' = M_finished"
    by (simp add: interleave_append)
  with s 1 2 3 show ?thesis by blast
qed

theorem logger_FIFO_witness:
  "interleave [Main, Main, Main, Main, Logger, Logger, Main, Logger, Main, Logger,
               Main, Logger, Logger, Main]
     (start [''a'', ''b'', ''c''])
   = Some \<lparr>main_at = M_finished, unsent = [], logger_at = L_returned, closed = True,
            wg = 0, logged = [''a'', ''b'', ''c'']\<rparr>"
  using logger_FIFO [of "[Main, Main, Main, Main, Logger, Logger, Main, Logger, Main, Logger,
               Main, Logger, Logger, Main]" "[''a'', ''b'', ''c'']"]
  by (simp add: start_def)

end
